theory Spec2Isabelle
  imports Main
begin

section \<open>The script \<^verbatim>\<open>main.py\<close> as a state-passing program\<close>

text \<open>
  \<^verbatim>\<open>main.py\<close> is a straight-line script: one \<^verbatim>\<open>requests.get\<close>, three \<^verbatim>\<open>print\<close>
  calls, one \<^verbatim>\<open>open\<close> and one \<^verbatim>\<open>write\<close>. Its effects are made explicit as a
  world that is passed along; an exception that nothing catches ends the run with
  \<open>Inl\<close> and the world as it was when the exception was raised.

  The libraries \<^verbatim>\<open>requests\<close> and \<^verbatim>\<open>json\<close> are not part of the repository. They are
  the fields of a record \<open>library\<close> that every definition takes as an argument: the
  transport, the JSON decoder behind \<^verbatim>\<open>r.json()\<close> and the serializer \<^verbatim>\<open>json.dumps\<close>.
  The type \<open>'j\<close> is the type of decoded JSON values.

  Scope of the model: \<^verbatim>\<open>print\<close>, \<^verbatim>\<open>open\<close> and \<^verbatim>\<open>write\<close> do not raise (standard output
  accepts text, the working directory is writable), \<^verbatim>\<open>json.dumps\<close> returns on every
  decoded value, and text handed to \<^verbatim>\<open>write\<close> is the content of the file: the
  buffering of the file object is not modelled.
\<close>

subsection \<open>Data\<close>

text \<open>Exceptions of the two library calls that can raise.\<close>

datatype error =
    ConnectionError      \<comment> \<open>connection refused, DNS failure\<close>
  | Timeout
  | SSLError
  | JSONDecodeError      \<comment> \<open>raised by \<^verbatim>\<open>r.json()\<close>\<close>

text \<open>
  The response object \<^verbatim>\<open>r\<close>, with the two attributes the script reads. The attribute
  \<^verbatim>\<open>r.text\<close> is the field \<open>text_body\<close>.
\<close>

record response =
  status_code :: int
  text_body :: string

text \<open>One call of the transport: the verb, the URL and the \<^verbatim>\<open>headers=\<close> argument.\<close>

record request =
  verb :: string
  url :: string
  req_headers :: "(string \<times> string) list"

text \<open>A file object as \<^verbatim>\<open>open\<close> returns it, with its attributes \<^verbatim>\<open>name\<close>, \<^verbatim>\<open>mode\<close>, \<^verbatim>\<open>closed\<close>.\<close>

record file_object =
  name :: string
  mode :: string
  closed :: bool

text \<open>What a \<^verbatim>\<open>print\<close> call was given: an integer, a string or a decoded JSON value.\<close>

datatype 'j pyval = PInt int | PStr string | PJson 'j

record 'j library =
  requests_get :: "string \<Rightarrow> (string \<times> string) list \<Rightarrow> error + response"
  loads :: "string \<Rightarrow> 'j option"
  dumps :: "'j \<Rightarrow> nat \<Rightarrow> string"

text \<open>
  The world: the requests issued, the arguments of the \<^verbatim>\<open>print\<close> calls in order, the
  files of the working directory, and the file objects of the process.
\<close>

record 'j world =
  sent :: "request list"
  stdout :: "'j pyval list"
  files :: "string \<rightharpoonup> string"
  handles :: "file_object list"

subsection \<open>The module-level constants\<close>

definition headers :: "(string \<times> string) list" where
  "headers = [(''Accept'', ''application/json''), (''api-token'', '''')]"

definition provider :: string where
  "provider = ''gh''"

definition remoteOrganizationName :: string where
  "remoteOrganizationName = ''aiden-perkins''"

text \<open>The f-string of line 12, as a function of the two names it interpolates.\<close>

definition endpoint :: "string \<Rightarrow> string \<Rightarrow> string" where
  "endpoint p org =
     ''https://app.codacy.com/api/v3/analysis/organizations/'' @ p @ ''/'' @ org @ ''/repositories''"

subsection \<open>The operations\<close>

definition py_print :: "'j pyval \<Rightarrow> 'j world \<Rightarrow> 'j world" where
  "py_print x w = w\<lparr>stdout := stdout w @ [x]\<rparr>"

text \<open>\<^verbatim>\<open>r.json()\<close>: decode the body, raising when it is not valid JSON.\<close>

definition json_m :: "'j library \<Rightarrow> response \<Rightarrow> error + 'j" where
  "json_m L r = (case loads L (text_body r) of None \<Rightarrow> Inl JSONDecodeError | Some v \<Rightarrow> Inr v)"

text \<open>\<^verbatim>\<open>open(path, 'w')\<close>: create or truncate the file and return a new file object.\<close>

definition py_open_w :: "string \<Rightarrow> 'j world \<Rightarrow> file_object \<times> 'j world" where
  "py_open_w path w =
     (let f = \<lparr>name = path, mode = ''w'', closed = False\<rparr>
      in (f, w\<lparr>files := (files w)(path \<mapsto> ''''), handles := handles w @ [f]\<rparr>))"

text \<open>\<^verbatim>\<open>f.write(s)\<close>: append to what the file holds.\<close>

definition py_write :: "file_object \<Rightarrow> string \<Rightarrow> 'j world \<Rightarrow> 'j world" where
  "py_write f s w =
     w\<lparr>files := (files w)(name f \<mapsto> (case files w (name f) of None \<Rightarrow> s | Some old \<Rightarrow> old @ s))\<rparr>"

subsection \<open>The script\<close>

text \<open>
  Lines 12 to 22, with the URL pieces and the header mapping as arguments. The body is
  decoded twice, at line 18 and at line 22, and each decode has its failure branch.
\<close>

definition script ::
  "(string \<times> string) list \<Rightarrow> string \<Rightarrow> string \<Rightarrow> 'j library \<Rightarrow> 'j world \<Rightarrow> (error + unit) \<times> 'j world" where
  "script hdrs p org L w0 =
     (let w1 = w0\<lparr>sent := sent w0 @ [\<lparr>verb = ''GET'', url = endpoint p org, req_headers = hdrs\<rparr>]\<rparr>
      in case requests_get L (endpoint p org) hdrs of
           Inl e \<Rightarrow> (Inl e, w1)
         | Inr r \<Rightarrow>
             (let w2 = py_print (PInt (status_code r)) w1;
                  w3 = py_print (PStr (text_body r)) w2
              in case json_m L r of
                   Inl e \<Rightarrow> (Inl e, w3)
                 | Inr v \<Rightarrow>
                     (let w4 = py_print (PJson v) w3;
                          (f, w5) = py_open_w ''temp.json'' w4
                      in case json_m L r of
                           Inl e \<Rightarrow> (Inl e, w5)
                         | Inr v' \<Rightarrow> (Inr (), py_write f (dumps L v' 4) w5))))"

text \<open>The script as it is: the module-level constants are the arguments.\<close>

definition main :: "'j library \<Rightarrow> 'j world \<Rightarrow> (error + unit) \<times> 'j world" where
  "main L w = script headers provider remoteOrganizationName L w"

text \<open>The exit status of the interpreter: 1 after an uncaught exception, 0 otherwise.\<close>

definition exit_code :: "error + unit \<Rightarrow> int" where
  "exit_code res = (case res of Inl e \<Rightarrow> 1 | Inr u \<Rightarrow> 0)"

text \<open>A new process over the files that are on disk.\<close>

definition fresh :: "(string \<rightharpoonup> string) \<Rightarrow> 'j world" where
  "fresh fs = \<lparr>sent = [], stdout = [], files = fs, handles = []\<rparr>"

text \<open>
  The check \<^verbatim>\<open>parse(written_file) == B\<close> of the specification: the file exists, its
  content decodes, and the decoded value equals \<open>B\<close>. The equality \<open>eq\<close> is the one
  of the decoded values, \<^verbatim>\<open>==\<close> of Python, which is not reflexive on floats.
\<close>

definition parses_back :: "'j library \<Rightarrow> ('j \<Rightarrow> 'j \<Rightarrow> bool) \<Rightarrow> string option \<Rightarrow> 'j \<Rightarrow> bool" where
  "parses_back L eq content B =
     (case content of
        None \<Rightarrow> False
      | Some c \<Rightarrow> (case loads L c of None \<Rightarrow> False | Some B' \<Rightarrow> eq B' B))"

section \<open>A JSON codec for the examples\<close>

text \<open>
  The theorems below hold for every \<open>library\<close>. To run the script on concrete
  responses, this section gives one instance: a codec for the fragment of JSON without
  fractions and exponents, with strings whose only escapes are those of the quote and
  the backslash. Of the floats it has the one that the decoder reads from the literal
  \<^verbatim>\<open>NaN\<close> and the serializer writes back as \<^verbatim>\<open>NaN\<close>. Objects are association lists
  in insertion order; a repeated key keeps
  its first position and takes the last value, as a dictionary does. The serializer
  lays a value out as \<^verbatim>\<open>json.dumps\<close> does when it is given \<^verbatim>\<open>indent\<close>: one item per
  line, \<open>indent\<close> spaces per level, \<^verbatim>\<open>,\<close> and \<^verbatim>\<open>: \<close> as separators.
\<close>

datatype json =
    JNull
  | JBool bool
  | JNum int
  | JNaN
  | JStr string
  | JArr "json list"
  | JObj "(string \<times> json) list"

definition dq :: char where "dq = CHR 0x22"
definition bs :: char where "bs = CHR 0x5C"
definition nl :: char where "nl = CHR 0x0A"

fun show_nat :: "nat \<Rightarrow> string" where
  "show_nat n = (if n < 10 then [char_of (48 + n)] else show_nat (n div 10) @ [char_of (48 + n mod 10)])"

definition show_int :: "int \<Rightarrow> string" where
  "show_int i = (if i < 0 then CHR ''-'' # show_nat (nat (- i)) else show_nat (nat i))"

fun escape :: "string \<Rightarrow> string" where
  "escape [] = []"
| "escape (c # cs) = (if c = dq \<or> c = bs then bs # c # escape cs else c # escape cs)"

definition quoted :: "string \<Rightarrow> string" where
  "quoted s = dq # escape s @ [dq]"

definition newline_indent :: "nat \<Rightarrow> nat \<Rightarrow> string" where
  "newline_indent i l = nl # replicate (i * l) CHR '' ''"

fun join :: "string \<Rightarrow> string list \<Rightarrow> string" where
  "join sep [] = []"
| "join sep [x] = x"
| "join sep (x # y # ys) = x @ sep @ join sep (y # ys)"

fun dump :: "nat \<Rightarrow> nat \<Rightarrow> json \<Rightarrow> string" where
  "dump i l JNull = ''null''"
| "dump i l (JBool b) = (if b then ''true'' else ''false'')"
| "dump i l (JNum n) = show_int n"
| "dump i l JNaN = ''NaN''"
| "dump i l (JStr s) = quoted s"
| "dump i l (JArr xs) =
     (if xs = [] then ''[]''
      else ''['' @ newline_indent i (Suc l)
           @ join ('','' @ newline_indent i (Suc l)) (map (dump i (Suc l)) xs)
           @ newline_indent i l @ '']'')"
| "dump i l (JObj kvs) =
     (if kvs = [] then ''{}''
      else ''{'' @ newline_indent i (Suc l)
           @ join ('','' @ newline_indent i (Suc l))
               (map (\<lambda>(k, v). quoted k @ '': '' @ dump i (Suc l) v) kvs)
           @ newline_indent i l @ ''}'')"


fun dict_set :: "string \<Rightarrow> json \<Rightarrow> (string \<times> json) list \<Rightarrow> (string \<times> json) list" where
  "dict_set k v [] = [(k, v)]"
| "dict_set k v ((k', v') # kvs) = (if k' = k then (k, v) # kvs else (k', v') # dict_set k v kvs)"

definition is_ws :: "char \<Rightarrow> bool" where
  "is_ws c = (c = CHR '' '' \<or> c = nl \<or> c = CHR 0x0D \<or> c = CHR 0x09)"

fun skip_ws :: "string \<Rightarrow> string" where
  "skip_ws [] = []"
| "skip_ws (c # cs) = (if is_ws c then skip_ws cs else c # cs)"

definition is_digit :: "char \<Rightarrow> bool" where
  "is_digit c = ((48::nat) \<le> of_char c \<and> of_char c \<le> (57::nat))"

fun parse_digits :: "nat \<Rightarrow> string \<Rightarrow> nat \<times> string" where
  "parse_digits acc [] = (acc, [])"
| "parse_digits acc (c # cs) =
     (if is_digit c then parse_digits (10 * acc + (of_char c - 48)) cs else (acc, c # cs))"

definition parse_nat :: "string \<Rightarrow> (nat \<times> string) option" where
  "parse_nat s =
     (case s of
        [] \<Rightarrow> None
      | c # cs \<Rightarrow>
          if c = CHR ''0'' then Some (0, cs)
          else if is_digit c then Some (parse_digits 0 (c # cs))
          else None)"

definition no_fraction :: "string \<Rightarrow> bool" where
  "no_fraction s = (case s of [] \<Rightarrow> True | c # cs \<Rightarrow> \<not> (c = CHR ''.'' \<or> c = CHR ''e'' \<or> c = CHR ''E''))"

definition parse_number :: "string \<Rightarrow> (json \<times> string) option" where
  "parse_number s =
     (case s of
        [] \<Rightarrow> None
      | c # cs \<Rightarrow>
          (case (if c = CHR ''-'' then parse_nat cs else parse_nat (c # cs)) of
             None \<Rightarrow> None
           | Some (n, r) \<Rightarrow>
               if no_fraction r then Some (JNum (if c = CHR ''-'' then - int n else int n), r)
               else None))"

fun parse_chars :: "string \<Rightarrow> (string \<times> string) option" where
  "parse_chars [] = None"
| "parse_chars (c # cs) =
     (if c = dq then Some ([], cs)
      else if c = bs then
        (case cs of
           [] \<Rightarrow> None
         | d # ds \<Rightarrow>
             if d = dq \<or> d = bs then
               (case parse_chars ds of None \<Rightarrow> None | Some (s, r) \<Rightarrow> Some (d # s, r))
             else None)
      else (case parse_chars cs of None \<Rightarrow> None | Some (s, r) \<Rightarrow> Some (c # s, r)))"

definition literal :: "string \<Rightarrow> json \<Rightarrow> string \<Rightarrow> (json \<times> string) option" where
  "literal lit v s = (if take (length lit) s = lit then Some (v, drop (length lit) s) else None)"

definition starts :: "char \<Rightarrow> string \<Rightarrow> bool" where
  "starts ch s = (case s of [] \<Rightarrow> False | c # cs \<Rightarrow> c = ch)"

fun parse_value :: "nat \<Rightarrow> string \<Rightarrow> (json \<times> string) option"
  and parse_elems :: "nat \<Rightarrow> json list \<Rightarrow> string \<Rightarrow> (json \<times> string) option"
  and parse_members :: "nat \<Rightarrow> (string \<times> json) list \<Rightarrow> string \<Rightarrow> (json \<times> string) option" where
  "parse_value 0 s = None"
| "parse_value (Suc n) s =
     (case skip_ws s of
        [] \<Rightarrow> None
      | c # cs \<Rightarrow>
          if c = CHR ''n'' then literal ''null'' JNull (c # cs)
          else if c = CHR ''t'' then literal ''true'' (JBool True) (c # cs)
          else if c = CHR ''f'' then literal ''false'' (JBool False) (c # cs)
          else if c = CHR ''N'' then literal ''NaN'' JNaN (c # cs)
          else if c = dq then
            (case parse_chars cs of None \<Rightarrow> None | Some (s', r) \<Rightarrow> Some (JStr s', r))
          else if c = CHR ''['' then
            (if starts CHR '']'' (skip_ws cs) then Some (JArr [], tl (skip_ws cs))
             else parse_elems n [] cs)
          else if c = CHR ''{'' then
            (if starts CHR ''}'' (skip_ws cs) then Some (JObj [], tl (skip_ws cs))
             else parse_members n [] cs)
          else parse_number (c # cs))"
| "parse_elems 0 acc s = None"
| "parse_elems (Suc n) acc s =
     (case parse_value n s of
        None \<Rightarrow> None
      | Some (v, r) \<Rightarrow>
          if starts CHR '','' (skip_ws r) then parse_elems n (acc @ [v]) (tl (skip_ws r))
          else if starts CHR '']'' (skip_ws r) then Some (JArr (acc @ [v]), tl (skip_ws r))
          else None)"
| "parse_members 0 acc s = None"
| "parse_members (Suc n) acc s =
     (if starts dq (skip_ws s) then
        (case parse_chars (tl (skip_ws s)) of
           None \<Rightarrow> None
         | Some (k, r) \<Rightarrow>
             if starts CHR '':'' (skip_ws r) then
               (case parse_value n (tl (skip_ws r)) of
                  None \<Rightarrow> None
                | Some (v, r') \<Rightarrow>
                    if starts CHR '','' (skip_ws r') then
                      parse_members n (dict_set k v acc) (tl (skip_ws r'))
                    else if starts CHR ''}'' (skip_ws r') then
                      Some (JObj (dict_set k v acc), tl (skip_ws r'))
                    else None)
             else None)
      else None)"

text \<open>The decoder: the whole text is one value, with white space around it.\<close>

definition loads_json :: "string \<Rightarrow> json option" where
  "loads_json s =
     (case parse_value (Suc (length s)) s of
        None \<Rightarrow> None
      | Some (v, r) \<Rightarrow> if skip_ws r = [] then Some v else None)"

definition dumps_json :: "json \<Rightarrow> nat \<Rightarrow> string" where
  "dumps_json v i = dump i 0 v"


subsection \<open>Equality of decoded values\<close>

text \<open>
  \<^verbatim>\<open>==\<close> on the values the decoder returns. \<^verbatim>\<open>NaN\<close> equals nothing, itself
  included; a boolean equals the integer 0 or 1 it stands for; lists are compared item
  by item; dictionaries are equal when they have as many keys and agree on each key,
  in whatever order the keys were inserted. The two values compared come from two
  decodes and share no object.
\<close>

fun py_eq :: "json \<Rightarrow> json \<Rightarrow> bool"
  and py_eq_list :: "json list \<Rightarrow> json list \<Rightarrow> bool"
  and py_eq_items :: "(string \<times> json) list \<Rightarrow> (string \<times> json) list \<Rightarrow> bool" where
  "py_eq JNull JNull = True"
| "py_eq (JBool a) (JBool b) = (a = b)"
| "py_eq (JBool a) (JNum n) = (n = (if a then 1 else 0))"
| "py_eq (JNum m) (JBool b) = (m = (if b then 1 else 0))"
| "py_eq (JNum m) (JNum n) = (m = n)"
| "py_eq (JStr s) (JStr t) = (s = t)"
| "py_eq (JArr xs) (JArr ys) = py_eq_list xs ys"
| "py_eq (JObj kvs) (JObj kvs') = (length kvs = length kvs' \<and> py_eq_items kvs kvs')"
| "py_eq x y = False"
| "py_eq_list [] [] = True"
| "py_eq_list (x # xs) (y # ys) = (py_eq x y \<and> py_eq_list xs ys)"
| "py_eq_list xs ys = False"
| "py_eq_items [] kvs' = True"
| "py_eq_items ((k, v) # kvs) kvs' =
     (case map_of kvs' k of None \<Rightarrow> False | Some v' \<Rightarrow> py_eq v v' \<and> py_eq_items kvs kvs')"

text \<open>A value without \<^verbatim>\<open>NaN\<close> anywhere in it.\<close>

fun nan_free :: "json \<Rightarrow> bool" where
  "nan_free JNaN = False"
| "nan_free (JArr xs) = (\<forall>x \<in> set xs. nan_free x)"
| "nan_free (JObj kvs) = (\<forall>kv \<in> set kvs. nan_free (snd kv))"
| "nan_free v = True"

subsection \<open>Notions for the proof that the codec decodes what it serializes\<close>

text \<open>A value is well formed when no object in it repeats a key.\<close>

fun wf_json :: "json \<Rightarrow> bool" where
  "wf_json (JArr xs) = (\<forall>x \<in> set xs. wf_json x)"
| "wf_json (JObj kvs) = (distinct (map fst kvs) \<and> (\<forall>kv \<in> set kvs. wf_json (snd kv)))"
| "wf_json v = True"

text \<open>The fuel that parsing a value takes: one unit for the value and one for each item below it.\<close>

fun nodes :: "json \<Rightarrow> nat" where
  "nodes (JArr xs) = Suc (sum_list (map (\<lambda>x. Suc (nodes x)) xs))"
| "nodes (JObj kvs) = Suc (sum_list (map (\<lambda>kv. Suc (nodes (snd kv))) kvs))"
| "nodes v = 1"

text \<open>One \<^verbatim>\<open>"key": value\<close> line of a serialized object.\<close>

definition member :: "nat \<Rightarrow> nat \<Rightarrow> string \<times> json \<Rightarrow> string" where
  "member i l kv = quoted (fst kv) @ '': '' @ dump i l (snd kv)"

text \<open>The characters a serialized value can start with.\<close>

definition value_start :: "char \<Rightarrow> bool" where
  "value_start c =
     (c = CHR ''n'' \<or> c = CHR ''t'' \<or> c = CHR ''f'' \<or> c = CHR ''N'' \<or> c = dq
      \<or> c = CHR ''['' \<or> c = CHR ''{''
      \<or> c = CHR ''-'' \<or> is_digit c)"

text \<open>The text after a number does not go on with a digit.\<close>

definition not_digit_next :: "string \<Rightarrow> bool" where
  "not_digit_next s = (case s of [] \<Rightarrow> True | c # cs \<Rightarrow> \<not> is_digit c)"

text \<open>What may follow a value in serialized text: nothing, a comma or a line break.\<close>

definition delim :: "string \<Rightarrow> bool" where
  "delim s = (case s of [] \<Rightarrow> True | c # cs \<Rightarrow> c = CHR '','' \<or> c = nl)"

section \<open>Mocked transports\<close>

text \<open>A library whose transport answers every request with \<open>res\<close>.\<close>

definition mock :: "error + response \<Rightarrow> json library" where
  "mock res = \<lparr>requests_get = (\<lambda>u h. res), loads = loads_json, dumps = dumps_json\<rparr>"

definition ok_response :: response where
  \<open>ok_response = \<lparr>status_code = 200, text_body = ''{"data":[{"id":1,"name":"repo-a"}]}''\<rparr>\<close>

definition ok_value :: json where
  "ok_value = JObj [(''data'', JArr [JObj [(''id'', JNum 1), (''name'', JStr ''repo-a'')]])]"

definition unauthorized_response :: response where
  \<open>unauthorized_response = \<lparr>status_code = 401, text_body = ''{"error":"unauthorized"}''\<rparr>\<close>

definition unauthorized_value :: json where
  "unauthorized_value = JObj [(''error'', JStr ''unauthorized'')]"

definition garbled_response :: response where
  "garbled_response = \<lparr>status_code = 200, text_body = ''not json''\<rparr>"


text \<open>A working directory that holds a \<^verbatim>\<open>temp.json\<close> from an earlier run.\<close>

definition stale_files :: "string \<rightharpoonup> string" where
  "stale_files = [''temp.json'' \<mapsto> ''stale'']"

section \<open>Symbolic execution of the three paths\<close>

text \<open>
  The script has three paths: the transport raises, the first decode raises, or every
  statement runs. Each lemma gives the result and the final world of one path.
\<close>

lemma script_transport_error:
  assumes "requests_get L (endpoint p org) hdrs = Inl e"
  shows "script hdrs p org L w =
    (Inl e, w\<lparr>sent := sent w @ [\<lparr>verb = ''GET'', url = endpoint p org, req_headers = hdrs\<rparr>]\<rparr>)"
  using assms by (simp add: script_def)

lemma script_decode_error:
  assumes "requests_get L (endpoint p org) hdrs = Inr r"
    and "loads L (text_body r) = None"
  shows "script hdrs p org L w =
    (Inl JSONDecodeError,
     w\<lparr>sent := sent w @ [\<lparr>verb = ''GET'', url = endpoint p org, req_headers = hdrs\<rparr>],
       stdout := stdout w @ [PInt (status_code r), PStr (text_body r)]\<rparr>)"
  using assms by (simp add: script_def json_m_def py_print_def)

lemma script_success:
  assumes "requests_get L (endpoint p org) hdrs = Inr r"
    and "loads L (text_body r) = Some v"
  shows "script hdrs p org L w =
    (Inr (),
     w\<lparr>sent := sent w @ [\<lparr>verb = ''GET'', url = endpoint p org, req_headers = hdrs\<rparr>],
       stdout := stdout w @ [PInt (status_code r), PStr (text_body r), PJson v],
       files := (files w)(''temp.json'' \<mapsto> dumps L v 4),
       handles := handles w @ [\<lparr>name = ''temp.json'', mode = ''w'', closed = False\<rparr>]\<rparr>)"
  using assms by (simp add: script_def json_m_def py_print_def py_open_w_def py_write_def Let_def)

lemmas main_transport_error =
  script_transport_error [of _ provider remoteOrganizationName headers, folded main_def]

lemmas main_decode_error =
  script_decode_error [of _ provider remoteOrganizationName headers, folded main_def]

lemmas main_success =
  script_success [of _ provider remoteOrganizationName headers, folded main_def]

text \<open>The mocked transports and the codec on the example bodies.\<close>

lemma mock_get: "requests_get (mock res) u h = res"
  by (simp add: mock_def)

lemma mock_loads: "loads (mock res) = loads_json"
  by (simp add: mock_def)

lemma mock_dumps: "dumps (mock res) = dumps_json"
  by (simp add: mock_def)

lemma loads_ok_body: "loads_json (text_body ok_response) = Some ok_value"
  by code_simp

lemma loads_unauthorized_body:
  "loads_json (text_body unauthorized_response) = Some unauthorized_value"
  by code_simp

lemma loads_garbled_body: "loads_json (text_body garbled_response) = None"
  by code_simp


lemma dumps_ok_value_layout:
  \<open>dumps_json ok_value 4 =
     join [nl]
       [''{'',
        ''    "data": ['',
        ''        {'',
        ''            "id": 1,'',
        ''            "name": "repo-a"'',
        ''        }'',
        ''    ]'',
        ''}'']\<close>
  by code_simp

text \<open>Keys are written in the order the object holds them, not sorted.\<close>

lemma dumps_keeps_key_order:
  \<open>dumps_json (JObj [(''name'', JStr ''repo-a''), (''id'', JNum 1)]) 4 =
     join [nl]
       [''{'',
        ''    "name": "repo-a",'',
        ''    "id": 1'',
        ''}'']\<close>
  by code_simp

section \<open>The transport fails\<close>

text \<open>
  Claim C4. When the transport raises (connection refused, timeout, DNS or TLS failure),
  the run ends with that exception: nothing has been printed, no file has been opened
  or written, and every file of the working directory, a \<^verbatim>\<open>temp.json\<close> of an earlier
  run among them, is as it was.
\<close>

theorem transport_failure_leaves_no_trace:
  assumes "requests_get L (endpoint provider remoteOrganizationName) headers = Inl e"
  shows "fst (main L w) = Inl e
       \<and> exit_code (fst (main L w)) = 1
       \<and> stdout (snd (main L w)) = stdout w
       \<and> files (snd (main L w)) = files w
       \<and> handles (snd (main L w)) = handles w"
  by (simp add: main_transport_error [OF assms] exit_code_def)

theorem transport_failure_leaves_no_trace_witness:
  "requests_get (mock (Inl ConnectionError)) (endpoint provider remoteOrganizationName) headers
     = Inl ConnectionError
   \<and> fst (main (mock (Inl ConnectionError)) (fresh stale_files)) = Inl ConnectionError
   \<and> stdout (snd (main (mock (Inl ConnectionError)) (fresh stale_files))) = []
   \<and> files (snd (main (mock (Inl ConnectionError)) (fresh stale_files))) ''temp.json''
       = Some ''stale''
   \<and> handles (snd (main (mock (Inl ConnectionError)) (fresh stale_files))) = []"
  using transport_failure_leaves_no_trace
    [of "mock (Inl ConnectionError)" ConnectionError "fresh stale_files"]
  by (simp add: mock_get fresh_def stale_files_def)

section \<open>The body is not valid JSON\<close>

text \<open>
  Claim C3. When the transport returns a response whose body is not valid JSON, the
  program prints the status code and then the raw text, and the decode of line 18
  raises: the run ends with the decode error, the decoded value is not printed, and no
  file is written.
\<close>

theorem decode_failure_after_two_prints:
  assumes "requests_get L (endpoint provider remoteOrganizationName) headers = Inr r"
    and "loads L (text_body r) = None"
  shows "fst (main L w) = Inl JSONDecodeError
       \<and> exit_code (fst (main L w)) = 1
       \<and> stdout (snd (main L w)) = stdout w @ [PInt (status_code r), PStr (text_body r)]
       \<and> files (snd (main L w)) = files w
       \<and> handles (snd (main L w)) = handles w"
  by (simp add: main_decode_error [OF assms] exit_code_def)

theorem decode_failure_after_two_prints_witness:
  "requests_get (mock (Inr garbled_response)) (endpoint provider remoteOrganizationName) headers
     = Inr garbled_response
   \<and> loads (mock (Inr garbled_response)) (text_body garbled_response) = None
   \<and> fst (main (mock (Inr garbled_response)) (fresh Map.empty)) = Inl JSONDecodeError
   \<and> stdout (snd (main (mock (Inr garbled_response)) (fresh Map.empty)))
       = [PInt 200, PStr ''not json'']
   \<and> files (snd (main (mock (Inr garbled_response)) (fresh Map.empty))) ''temp.json'' = None"
  using decode_failure_after_two_prints
    [of "mock (Inr garbled_response)" garbled_response "fresh Map.empty"]
  by (simp add: mock_get mock_loads loads_garbled_body fresh_def)
    (simp add: garbled_response_def)

text \<open>
  Claim C9. On a decode failure the file is never opened: the exception is raised at
  line 18, before the \<^verbatim>\<open>open\<close> of line 20. No file object is created, and the files of
  the working directory, \<^verbatim>\<open>temp.json\<close> among them, are neither truncated nor changed.
\<close>

theorem decode_failure_never_opens_file:
  assumes "requests_get L (endpoint provider remoteOrganizationName) headers = Inr r"
    and "loads L (text_body r) = None"
  shows "handles (snd (main L w)) = handles w
       \<and> files (snd (main L w)) = files w
       \<and> files (snd (main L w)) ''temp.json'' = files w ''temp.json''"
  by (simp add: main_decode_error [OF assms])

theorem decode_failure_never_opens_file_witness:
  "requests_get (mock (Inr garbled_response)) (endpoint provider remoteOrganizationName) headers
     = Inr garbled_response
   \<and> loads (mock (Inr garbled_response)) (text_body garbled_response) = None
   \<and> handles (snd (main (mock (Inr garbled_response)) (fresh stale_files))) = []
   \<and> files (snd (main (mock (Inr garbled_response)) (fresh stale_files))) ''temp.json''
       = Some ''stale''"
  using decode_failure_never_opens_file
    [of "mock (Inr garbled_response)" garbled_response "fresh stale_files"]
  by (simp add: mock_get mock_loads loads_garbled_body fresh_def stale_files_def)

section \<open>The request\<close>

text \<open>
  Claim C6. Whatever happens afterwards, the program issues exactly one request: a GET
  to the fixed prefix, the provider, a slash, the organization name and
  \<^verbatim>\<open>/repositories\<close>, the two names copied character by character with no encoding,
  and the header mapping it was given as the \<^verbatim>\<open>headers=\<close> argument. For the script as
  it is, the URL ends in \<^verbatim>\<open>gh/aiden-perkins/repositories\<close> and the mapping holds
  \<^verbatim>\<open>Accept: application/json\<close> and an empty \<^verbatim>\<open>api-token\<close>, and nothing else.
\<close>

theorem request_is_fixed_by_names:
  "sent (snd (script hdrs p org L w)) =
     sent w @
     [\<lparr>verb = ''GET'',
       url = ''https://app.codacy.com/api/v3/analysis/organizations/'' @ p @ ''/'' @ org
             @ ''/repositories'',
       req_headers = hdrs\<rparr>]
   \<and> sent (snd (main L w)) =
     sent w @
     [\<lparr>verb = ''GET'',
       url = ''https://app.codacy.com/api/v3/analysis/organizations/gh/aiden-perkins/repositories'',
       req_headers = [(''Accept'', ''application/json''), (''api-token'', '''')]\<rparr>]"
proof -
  have any: "sent (snd (script h a b L w)) =
      sent w @ [\<lparr>verb = ''GET'', url = endpoint a b, req_headers = h\<rparr>]" for h a b
  proof (cases "requests_get L (endpoint a b) h")
    case (Inl e)
    then show ?thesis by (simp add: script_transport_error)
  next
    case (Inr r)
    then show ?thesis
      by (cases "loads L (text_body r)") (simp_all add: script_decode_error script_success)
  qed
  have "sent (snd (main L w)) =
      sent w @ [\<lparr>verb = ''GET'', url = endpoint provider remoteOrganizationName,
                 req_headers = headers\<rparr>]"
    unfolding main_def by (rule any)
  then show ?thesis
    using any [of hdrs p org]
    by (simp add: endpoint_def provider_def remoteOrganizationName_def headers_def)
qed

section \<open>The body is valid JSON\<close>




text \<open>
  Claim C2, as amended. On the run in which every statement executes, the program opens
  \<^verbatim>\<open>temp.json\<close> for writing and writes the serialized value; it does not close the
  file. When the last statement has run, the file object of line 20 exists with
  \<^verbatim>\<open>closed\<close> false; releasing it is left to the interpreter.
\<close>

theorem output_file_left_open:
  assumes "requests_get L (endpoint provider remoteOrganizationName) headers = Inr r"
    and "loads L (text_body r) = Some v"
  shows "fst (main L w) = Inr ()
       \<and> files (snd (main L w)) ''temp.json'' = Some (dumps L v 4)
       \<and> handles (snd (main L w)) =
           handles w @ [\<lparr>name = ''temp.json'', mode = ''w'', closed = False\<rparr>]"
  by (simp add: main_success [OF assms])

theorem output_file_left_open_witness:
  "requests_get (mock (Inr ok_response)) (endpoint provider remoteOrganizationName) headers
     = Inr ok_response
   \<and> loads (mock (Inr ok_response)) (text_body ok_response) = Some ok_value
   \<and> fst (main (mock (Inr ok_response)) (fresh Map.empty)) = Inr ()
   \<and> files (snd (main (mock (Inr ok_response)) (fresh Map.empty))) ''temp.json''
       = Some (dumps_json ok_value 4)
   \<and> handles (snd (main (mock (Inr ok_response)) (fresh Map.empty)))
       = [\<lparr>name = ''temp.json'', mode = ''w'', closed = False\<rparr>]"
  using output_file_left_open
    [of "mock (Inr ok_response)" ok_response ok_value "fresh Map.empty"]
  by (simp add: mock_get mock_loads mock_dumps loads_ok_body fresh_def)

text \<open>
  The claim as the specification states it, that the file is closed once the value is
  written, fails on the run against the mocked 200 response: the run succeeds and its
  only file object is still open.
\<close>

theorem output_file_closed_counterexample:
  "fst (main (mock (Inr ok_response)) (fresh Map.empty)) = Inr ()
   \<and> map closed (handles (snd (main (mock (Inr ok_response)) (fresh Map.empty)))) = [False]"
  by (simp add: main_success [of "mock (Inr ok_response)" ok_response ok_value]
      mock_get mock_loads loads_ok_body fresh_def)

text \<open>
  Claim C5, as amended. On every run in which the transport returns a response, the
  program prints the integer status code and then the raw text body, whatever the
  status code is. When the body is valid JSON it then prints the decoded value, three
  items in all; when it is not, these two items are all it prints.
\<close>

theorem prints_status_text_then_value:
  assumes "requests_get L (endpoint provider remoteOrganizationName) headers = Inr r"
  shows "stdout (snd (main L w)) =
           stdout w @ [PInt (status_code r), PStr (text_body r)]
           @ (case loads L (text_body r) of None \<Rightarrow> [] | Some v \<Rightarrow> [PJson v])"
proof (cases "loads L (text_body r)")
  case None
  then show ?thesis by (simp add: main_decode_error [OF assms])
next
  case (Some v)
  then show ?thesis by (simp add: main_success [OF assms])
qed

theorem prints_status_text_then_value_witness:
  "requests_get (mock (Inr unauthorized_response)) (endpoint provider remoteOrganizationName)
     headers = Inr unauthorized_response
   \<and> stdout (snd (main (mock (Inr unauthorized_response)) (fresh Map.empty)))
       = [PInt 401, PStr (text_body unauthorized_response), PJson unauthorized_value]"
  using prints_status_text_then_value
    [of "mock (Inr unauthorized_response)" unauthorized_response "fresh Map.empty"]
  by (simp add: mock_get mock_loads loads_unauthorized_body fresh_def)
    (simp add: unauthorized_response_def)

text \<open>
  The claim as the specification states it, three items on every run that reaches the
  first \<^verbatim>\<open>print\<close>, fails on the mocked 200 response with the body \<^verbatim>\<open>not json\<close>: that
  run prints two items.
\<close>

theorem three_prints_counterexample:
  "stdout (snd (main (mock (Inr garbled_response)) (fresh Map.empty)))
     = [PInt 200, PStr ''not json'']
   \<and> length (stdout (snd (main (mock (Inr garbled_response)) (fresh Map.empty)))) = 2"
  by (simp add: main_decode_error [of "mock (Inr garbled_response)" garbled_response]
      mock_get mock_loads loads_garbled_body fresh_def)
    (simp add: garbled_response_def)

text \<open>
  Claim C7. A response with a status code outside 200..299 and a valid JSON body is
  handled as a success is: the three items are printed, the payload is written to
  \<^verbatim>\<open>temp.json\<close>, the run ends without an exception and the exit status is 0. The
  run against the same body under status 200 ends in the same world but for the
  printed status code.
\<close>

theorem failure_status_handled_as_success:
  assumes "requests_get L (endpoint provider remoteOrganizationName) headers = Inr r"
    and "loads L (text_body r) = Some v"
    and "status_code r < 200 \<or> 300 \<le> status_code r"
  shows "fst (main L w) = Inr ()
       \<and> exit_code (fst (main L w)) = 0
       \<and> stdout (snd (main L w)) = stdout w @ [PInt (status_code r), PStr (text_body r), PJson v]
       \<and> files (snd (main L w)) = (files w)(''temp.json'' \<mapsto> dumps L v 4)
       \<and> main (L\<lparr>requests_get := \<lambda>u h. Inr (r\<lparr>status_code := 200\<rparr>)\<rparr>) w =
           (fst (main L w),
            (snd (main L w))\<lparr>stdout := stdout w @ [PInt 200, PStr (text_body r), PJson v]\<rparr>)"
proof -
  let ?L = "L\<lparr>requests_get := \<lambda>u h. Inr (r\<lparr>status_code := 200\<rparr>)\<rparr>"
  have get: "requests_get ?L (endpoint provider remoteOrganizationName) headers
      = Inr (r\<lparr>status_code := 200\<rparr>)"
    by simp
  have dec: "loads ?L (text_body (r\<lparr>status_code := 200\<rparr>)) = Some v"
    using assms(2) by simp
  show ?thesis
    by (simp add: main_success [OF assms(1,2)] main_success [OF get dec] exit_code_def)
qed

theorem failure_status_handled_as_success_witness:
  "requests_get (mock (Inr unauthorized_response)) (endpoint provider remoteOrganizationName)
     headers = Inr unauthorized_response
   \<and> loads (mock (Inr unauthorized_response)) (text_body unauthorized_response)
       = Some unauthorized_value
   \<and> (status_code unauthorized_response < 200 \<or> 300 \<le> status_code unauthorized_response)
   \<and> fst (main (mock (Inr unauthorized_response)) (fresh Map.empty)) = Inr ()
   \<and> exit_code (fst (main (mock (Inr unauthorized_response)) (fresh Map.empty))) = 0
   \<and> stdout (snd (main (mock (Inr unauthorized_response)) (fresh Map.empty)))
       = [PInt 401, PStr (text_body unauthorized_response), PJson unauthorized_value]
   \<and> files (snd (main (mock (Inr unauthorized_response)) (fresh Map.empty))) ''temp.json''
       = Some (dumps_json unauthorized_value 4)"
proof -
  have st: "status_code unauthorized_response < 200 \<or> 300 \<le> status_code unauthorized_response"
    by (simp add: unauthorized_response_def)
  have "status_code unauthorized_response = 401"
    by (simp add: unauthorized_response_def)
  then show ?thesis
    using st failure_status_handled_as_success
      [of "mock (Inr unauthorized_response)" unauthorized_response unauthorized_value
          "fresh Map.empty"]
    by (simp add: mock_get mock_loads mock_dumps loads_unauthorized_body fresh_def exit_code_def)
qed

text \<open>
  Claim C8. Two runs against the same response with a valid JSON body, the second
  over the files the first has left, give \<^verbatim>\<open>temp.json\<close> the same content: the
  serialization of the decoded value. The file is truncated when it is opened, so
  neither what the first run wrote nor what was there before it is kept.
\<close>

theorem rerun_gives_same_file:
  assumes "requests_get L (endpoint provider remoteOrganizationName) headers = Inr r"
    and "loads L (text_body r) = Some v"
  shows "files (snd (main L (fresh (files (snd (main L (fresh fs))))))) ''temp.json''
           = files (snd (main L (fresh fs))) ''temp.json''
       \<and> files (snd (main L (fresh fs))) ''temp.json'' = Some (dumps L v 4)"
  by (simp add: main_success [OF assms] fresh_def)

theorem rerun_gives_same_file_witness:
  "requests_get (mock (Inr ok_response)) (endpoint provider remoteOrganizationName) headers
     = Inr ok_response
   \<and> loads (mock (Inr ok_response)) (text_body ok_response) = Some ok_value
   \<and> files (snd (main (mock (Inr ok_response))
        (fresh (files (snd (main (mock (Inr ok_response)) (fresh stale_files)))))))
        ''temp.json''
       = files (snd (main (mock (Inr ok_response)) (fresh stale_files))) ''temp.json''
   \<and> files (snd (main (mock (Inr ok_response)) (fresh stale_files))) ''temp.json''
       = Some (dumps_json ok_value 4)"
  using rerun_gives_same_file
    [of "mock (Inr ok_response)" ok_response ok_value stale_files]
  by (simp add: mock_get mock_loads mock_dumps loads_ok_body)

text \<open>
  Claim C10. The body is decoded at line 18 for printing and again at line 22 for the
  file. Both decodes read the text of the same response object, so for a valid JSON
  body there is one value that is both the third item printed and the value whose
  serialization is the content of \<^verbatim>\<open>temp.json\<close>; the second decode does not fail.
\<close>

theorem persisted_value_is_printed_value:
  assumes "requests_get L (endpoint provider remoteOrganizationName) headers = Inr r"
    and "loads L (text_body r) = Some v"
  shows "\<exists>x. stdout (snd (main L w)) ! (length (stdout w) + 2) = PJson x
           \<and> files (snd (main L w)) ''temp.json'' = Some (dumps L x 4)
           \<and> json_m L r = Inr x
           \<and> fst (main L w) = Inr ()"
  by (simp add: main_success [OF assms] json_m_def assms(2) nth_append)

theorem persisted_value_is_printed_value_witness:
  "requests_get (mock (Inr ok_response)) (endpoint provider remoteOrganizationName) headers
     = Inr ok_response
   \<and> loads (mock (Inr ok_response)) (text_body ok_response) = Some ok_value
   \<and> (\<exists>x. stdout (snd (main (mock (Inr ok_response)) (fresh Map.empty))) ! (0 + 2) = PJson x
         \<and> files (snd (main (mock (Inr ok_response)) (fresh Map.empty))) ''temp.json''
             = Some (dumps_json x 4))"
  using persisted_value_is_printed_value
    [of "mock (Inr ok_response)" ok_response ok_value "fresh Map.empty"]
  by (simp add: mock_get mock_loads mock_dumps loads_ok_body) (auto simp: fresh_def)

section \<open>The example codec decodes what it serializes\<close>

text \<open>
  The example codec reads back what it writes, on every body it decodes: the decoder
  returns well-formed values only, and the serialization of a well-formed value, at any
  indentation, decodes to that same value.
\<close>

lemma is_ws_simps [simp]:
  "is_ws CHR '' ''" "is_ws nl" 
  by (simp_all add: is_ws_def)

lemma skip_ws_replicate: "skip_ws (replicate k CHR '' '' @ s) = skip_ws s"
  by (induction k) simp_all

lemma skip_ws_newline_indent: "skip_ws (newline_indent i l @ s) = skip_ws s"
  by (simp add: newline_indent_def skip_ws_replicate)

lemma skip_ws_stop: "\<not> is_ws c \<Longrightarrow> skip_ws (c # s) = c # s"
  by simp

lemma parse_chars_escape: "parse_chars (escape s @ dq # rest) = Some (s, rest)"
  by (induction s) (simp_all add: dq_def bs_def)

lemma parse_chars_quoted: "parse_chars (tl (quoted s) @ rest) = Some (s, rest)"
  by (simp add: quoted_def parse_chars_escape)

subsection \<open>Numbers\<close>

declare show_nat.simps [simp del]

lemma digit_char_props:
  fixes d :: nat
  assumes "d < 10"
  shows "is_digit (char_of (48 + d))" and "of_char (char_of (48 + d) :: char) - 48 = d"
  using assms by (simp_all add: is_digit_def)

lemma show_nat_digits: "c \<in> set (show_nat n) \<Longrightarrow> is_digit c"
proof (induction n rule: show_nat.induct)
  case (1 n)
  show ?case
  proof (cases "n < 10")
    case True
    with "1.prems" show ?thesis
      by (simp add: show_nat.simps [of n] digit_char_props)
  next
    case False
    with "1.prems" "1.IH" show ?thesis
      by (auto simp: show_nat.simps [of n] digit_char_props)
  qed
qed

lemma parse_digits_append:
  assumes "\<forall>c \<in> set ds. is_digit c" and "not_digit_next rest"
  shows "parse_digits acc (ds @ rest) = (foldl (\<lambda>a c. 10 * a + (of_char c - 48)) acc ds, rest)"
  using assms
proof (induction ds arbitrary: acc)
  case Nil
  then show ?case by (cases rest) (simp_all add: not_digit_next_def)
next
  case (Cons d ds)
  then show ?case by simp
qed

lemma foldl_show_nat: "foldl (\<lambda>a c. 10 * a + (of_char c - 48)) 0 (show_nat n) = n"
proof (induction n rule: show_nat.induct)
  case (1 n)
  show ?case
  proof (cases "n < 10")
    case True
    then show ?thesis by (simp add: show_nat.simps [of n] digit_char_props)
  next
    case False
    with "1.IH" show ?thesis
      by (simp add: show_nat.simps [of n] digit_char_props)
  qed
qed

lemma char_of_48: "char_of (48::nat) = CHR ''0''"
  by code_simp

lemma show_nat_nonempty: "show_nat n \<noteq> []"
  by (subst show_nat.simps) simp

lemma hd_show_nat: "0 < n \<Longrightarrow> hd (show_nat n) \<noteq> CHR ''0''"
proof (induction n rule: show_nat.induct)
  case (1 n)
  show ?case
  proof (cases "n < 10")
    case True
    have "char_of (48 + n) \<noteq> CHR ''0''"
    proof
      assume eq: "char_of (48 + n) = CHR ''0''"
      have "of_char (char_of (48 + n) :: char) - 48 = n"
        using True by (rule digit_char_props)
      then have "n = 0" unfolding eq by simp
      with "1.prems" show False by simp
    qed
    then show ?thesis using True by (simp add: show_nat.simps [of n])
  next
    case False
    then have "0 < n div 10" by simp
    with "1.IH" False have "hd (show_nat (n div 10)) \<noteq> CHR ''0''" by simp
    then show ?thesis using False
      by (simp add: show_nat.simps [of n] show_nat_nonempty)
  qed
qed

lemma parse_nat_show_nat:
  assumes "not_digit_next rest"
  shows "parse_nat (show_nat n @ rest) = Some (n, rest)"
proof (cases "n = 0")
  case True
  then show ?thesis by (simp add: show_nat.simps [of 0] parse_nat_def char_of_48)
next
  case False
  obtain c cs where cs: "show_nat n = c # cs"
    using show_nat_nonempty [of n] by (cases "show_nat n") auto
  have "c \<noteq> CHR ''0''" using hd_show_nat [of n] False cs by simp
  moreover have "is_digit c" using show_nat_digits [of c n] cs by simp
  moreover have "parse_digits 0 (show_nat n @ rest) = (n, rest)"
    using parse_digits_append [of "show_nat n" rest 0] assms show_nat_digits foldl_show_nat
    by simp
  ultimately show ?thesis using cs by (simp add: parse_nat_def)
qed

lemma delim_simps [simp]:
  "delim []" "delim (CHR '','' # s)" "delim (nl # s)" "delim (newline_indent i l @ s)"
  by (simp_all add: delim_def newline_indent_def)

lemma delim_not_digit: "delim s \<Longrightarrow> not_digit_next s"
  by (cases s) (auto simp: delim_def not_digit_next_def is_digit_def nl_def)

lemma delim_no_fraction: "delim s \<Longrightarrow> no_fraction s"
  by (cases s) (auto simp: delim_def no_fraction_def nl_def)

lemma parse_number_show_int:
  assumes "delim rest"
  shows "parse_number (show_int k @ rest) = Some (JNum k, rest)"
proof (cases "k < 0")
  case True
  then show ?thesis
    using parse_nat_show_nat [OF delim_not_digit [OF assms], of "nat (- k)"]
      delim_no_fraction [OF assms]
    by (simp add: parse_number_def show_int_def)
next
  case False
  obtain c cs where cs: "show_nat (nat k) = c # cs"
    using show_nat_nonempty [of "nat k"] by (cases "show_nat (nat k)") auto
  have "is_digit c" using show_nat_digits [of c "nat k"] cs by simp
  then have "c \<noteq> CHR ''-''" by (auto simp: is_digit_def)
  then show ?thesis
    using False cs parse_nat_show_nat [OF delim_not_digit [OF assms], of "nat k"]
      delim_no_fraction [OF assms]
    by (simp add: parse_number_def show_int_def)
qed

subsection \<open>First characters\<close>

lemma value_start_not:
  assumes "value_start c"
  shows "\<not> is_ws c" "c \<noteq> CHR '']''" "c \<noteq> CHR ''}''" "c \<noteq> CHR '',''" "c \<noteq> CHR '':''"
  using assms by (auto simp: value_start_def is_ws_def is_digit_def dq_def nl_def)

lemma show_int_first: "\<exists>c cs. show_int k = c # cs \<and> (c = CHR ''-'' \<or> is_digit c)"
proof (cases "k < 0")
  case True
  then show ?thesis by (simp add: show_int_def)
next
  case False
  obtain c cs where cs: "show_nat (nat k) = c # cs"
    using show_nat_nonempty [of "nat k"] by (cases "show_nat (nat k)") auto
  then have "is_digit c" using show_nat_digits [of c "nat k"] by simp
  with cs False show ?thesis by (simp add: show_int_def)
qed

lemma dump_first: "\<exists>c cs. dump i l v = c # cs \<and> value_start c"
proof (cases v)
  case (JNum k)
  then show ?thesis using show_int_first [of k] by (auto simp: value_start_def)
qed (auto simp: value_start_def quoted_def)

lemma skip_ws_dump: "skip_ws (dump i l v @ s) = dump i l v @ s"
  using dump_first [of i l v] value_start_not(1) by auto

lemma starts_dump:
  "\<not> starts CHR '']'' (dump i l v @ s)" "\<not> starts CHR ''}'' (dump i l v @ s)"
  using dump_first [of i l v] value_start_not by (auto simp: starts_def)

subsection \<open>Leading white space\<close>

lemma parse_value_indent: "parse_value n (newline_indent i l @ s) = parse_value n s"
  by (cases n) (simp_all add: skip_ws_newline_indent)

lemma parse_value_space: "parse_value n (CHR '' '' # s) = parse_value n s"
  by (cases n) simp_all

lemma parse_elems_indent: "parse_elems n acc (newline_indent i l @ s) = parse_elems n acc s"
  by (cases n) (simp_all add: parse_value_indent)

lemma parse_members_indent: "parse_members n acc (newline_indent i l @ s) = parse_members n acc s"
  by (cases n) (simp_all add: skip_ws_newline_indent)

lemma dict_set_fresh: "k \<notin> fst ` set acc \<Longrightarrow> dict_set k v acc = acc @ [(k, v)]"
  by (induction acc) auto

subsection \<open>Arrays\<close>

lemma starts_simps [simp]: "starts c [] = False" "starts c (d # s) = (d = c)"
  by (simp_all add: starts_def)

lemma not_ws_punct [simp]:
  "\<not> is_ws CHR '',''" "\<not> is_ws CHR '']''" "\<not> is_ws CHR ''}''" "\<not> is_ws CHR '':''"
  "\<not> is_ws CHR ''[''" "\<not> is_ws CHR ''{''" "\<not> is_ws dq"
  by (simp_all add: is_ws_def nl_def dq_def)

lemma parse_elems_join:
  assumes "\<And>x n l rest. x \<in> set xs \<Longrightarrow> nodes x \<le> n \<Longrightarrow> delim rest
             \<Longrightarrow> parse_value n (dump i l x @ rest) = Some (x, rest)"
    and "xs \<noteq> []"
    and "sum_list (map (\<lambda>x. Suc (nodes x)) xs) \<le> m"
  shows "parse_elems m acc
           (join (CHR '','' # newline_indent i l') (map (dump i l') xs)
            @ newline_indent i l0 @ CHR '']'' # rest)
         = Some (JArr (acc @ xs), rest)"
  using assms
proof (induction xs arbitrary: acc m)
  case Nil
  then show ?case by simp
next
  case (Cons x xs)
  from Cons.prems(3) obtain m' where m: "m = Suc m'"
    and le: "nodes x + sum_list (map (\<lambda>x. Suc (nodes x)) xs) \<le> m'"
    by (cases m) auto
  have pv: "parse_value m' (dump i l' x @ r) = Some (x, r)" if "delim r" for r
    using Cons.prems(1) [of x m' r l'] le that by simp
  show ?case
  proof (cases xs)
    case Nil
    then show ?thesis
      by (simp add: m pv skip_ws_newline_indent)
  next
    case (Cons y ys)
    have "parse_elems m' (acc @ [x])
            (join (CHR '','' # newline_indent i l') (map (dump i l') xs)
             @ newline_indent i l0 @ CHR '']'' # rest)
          = Some (JArr ((acc @ [x]) @ xs), rest)"
    proof (rule Cons.IH)
      show "xs \<noteq> []" using Cons by simp
      show "sum_list (map (\<lambda>x. Suc (nodes x)) xs) \<le> m'" using le by simp
      show "parse_value n (dump i l z @ r) = Some (z, r)"
        if "z \<in> set xs" "nodes z \<le> n" "delim r" for z n l r
        using Cons.prems(1) [of z n r l] that by simp
    qed
    then show ?thesis
      using Cons by (simp add: m pv parse_elems_indent)
  qed
qed

lemma join_dump_first:
  "xs \<noteq> [] \<Longrightarrow> \<exists>c cs. join sep (map (dump i l) xs) = c # cs \<and> value_start c"
proof (cases xs)
  case Nil
  assume "xs \<noteq> []"
  with Nil show ?thesis by simp
next
  case (Cons x ys)
  obtain c cs where "dump i l x = c # cs" "value_start c"
    using dump_first [of i l x] by auto
  with Cons show ?thesis by (cases ys) auto
qed

subsection \<open>Objects\<close>

lemma member_lambda:
  "(\<lambda>(k, v). quoted k @ CHR '':'' # CHR '' '' # dump i l v) = member i l"
  by (auto simp: member_def fun_eq_iff)

lemma dump_object:
  "kvs \<noteq> [] \<Longrightarrow>
   dump i l (JObj kvs) =
     CHR ''{'' # newline_indent i (Suc l)
     @ join (CHR '','' # newline_indent i (Suc l)) (map (member i (Suc l)) kvs)
     @ newline_indent i l @ ''}''"
  by (simp add: member_lambda)

lemma member_pair:
  "member i l (k, v) = dq # escape k @ dq # CHR '':'' # CHR '' '' # dump i l v"
  by (simp add: member_def quoted_def)

lemma parse_members_join:
  assumes "\<And>kv n l rest. kv \<in> set kvs \<Longrightarrow> nodes (snd kv) \<le> n \<Longrightarrow> delim rest
             \<Longrightarrow> parse_value n (dump i l (snd kv) @ rest) = Some (snd kv, rest)"
    and "kvs \<noteq> []"
    and "distinct (map fst (acc @ kvs))"
    and "sum_list (map (\<lambda>kv. Suc (nodes (snd kv))) kvs) \<le> m"
  shows "parse_members m acc
           (join (CHR '','' # newline_indent i l') (map (member i l') kvs)
            @ newline_indent i l0 @ CHR ''}'' # rest)
         = Some (JObj (acc @ kvs), rest)"
  using assms
proof (induction kvs arbitrary: acc m)
  case Nil
  then show ?case by simp
next
  case (Cons kv kvs)
  obtain k v where kv: "kv = (k, v)" by (cases kv)
  from Cons.prems(4) obtain m' where m: "m = Suc m'"
    and le: "nodes v + sum_list (map (\<lambda>kv. Suc (nodes (snd kv))) kvs) \<le> m'"
    by (cases m) (auto simp: kv)
  have pv: "parse_value m' (dump i l' v @ r) = Some (v, r)" if "delim r" for r
    using Cons.prems(1) [of kv m' r l'] le that by (simp add: kv)
  have fresh: "dict_set k v acc = acc @ [(k, v)]"
    using Cons.prems(3) by (intro dict_set_fresh) (auto simp: kv)
  show ?case
  proof (cases kvs)
    case Nil
    then show ?thesis
      by (simp add: m kv member_pair parse_chars_escape parse_value_space pv
          skip_ws_newline_indent fresh)
  next
    case (Cons y ys)
    have "parse_members m' (acc @ [kv])
            (join (CHR '','' # newline_indent i l') (map (member i l') kvs)
             @ newline_indent i l0 @ CHR ''}'' # rest)
          = Some (JObj ((acc @ [kv]) @ kvs), rest)"
    proof (rule Cons.IH)
      show "kvs \<noteq> []" using Cons by simp
      show "sum_list (map (\<lambda>kv. Suc (nodes (snd kv))) kvs) \<le> m'" using le by simp
      show "distinct (map fst ((acc @ [kv]) @ kvs))" using Cons.prems(3) by simp
      show "parse_value n (dump i l (snd z) @ r) = Some (snd z, r)"
        if "z \<in> set kvs" "nodes (snd z) \<le> n" "delim r" for z n l r
        using Cons.prems(1) [of z n r l] that by simp
    qed
    then show ?thesis
      using Cons
      by (simp add: m kv member_pair parse_chars_escape parse_value_space pv
          parse_members_indent fresh)
  qed
qed

lemma join_member_first:
  "kvs \<noteq> [] \<Longrightarrow> \<exists>cs. join sep (map (member i l) kvs) = dq # cs"
proof (cases kvs)
  case Nil
  assume "kvs \<noteq> []"
  with Nil show ?thesis by simp
next
  case (Cons x ys)
  then show ?thesis by (cases ys) (auto simp: member_def quoted_def)
qed

subsection \<open>Parsing what the serializer wrote\<close>

lemma literal_exact: "literal lit v (lit @ rest) = Some (v, rest)"
  by (simp add: literal_def)

lemma parse_value_null: "parse_value (Suc m) (''null'' @ rest) = Some (JNull, rest)"
  by (simp add: literal_def is_ws_def nl_def)

lemma parse_value_true: "parse_value (Suc m) (''true'' @ rest) = Some (JBool True, rest)"
  by (simp add: literal_def is_ws_def nl_def)

lemma parse_value_false: "parse_value (Suc m) (''false'' @ rest) = Some (JBool False, rest)"
  by (simp add: literal_def is_ws_def nl_def)

lemma parse_value_nan: "parse_value (Suc m) (''NaN'' @ rest) = Some (JNaN, rest)"
  by (simp add: literal_def is_ws_def nl_def)

lemma parse_value_string:
  "parse_value (Suc m) (quoted s @ rest) = Some (JStr s, rest)"
  by (simp add: quoted_def parse_chars_escape) (simp add: dq_def)

lemma number_start_not:
  assumes "c = CHR ''-'' \<or> is_digit c"
  shows "\<not> is_ws c" "c \<noteq> CHR ''n''" "c \<noteq> CHR ''t''" "c \<noteq> CHR ''f''" "c \<noteq> dq"
    "c \<noteq> CHR ''[''" "c \<noteq> CHR ''{''" "c \<noteq> CHR ''N''"
  using assms by (auto simp: is_ws_def is_digit_def dq_def nl_def)

lemma parse_value_number:
  assumes "delim rest"
  shows "parse_value (Suc m) (show_int k @ rest) = Some (JNum k, rest)"
proof -
  obtain c cs where cs: "show_int k = c # cs" and c: "c = CHR ''-'' \<or> is_digit c"
    using show_int_first [of k] by auto
  have "parse_number (c # cs @ rest) = Some (JNum k, rest)"
    using parse_number_show_int [OF assms, of k] cs by simp
  then show ?thesis
    using number_start_not [OF c] by (simp add: cs)
qed

lemma parse_dump:
  "wf_json v \<Longrightarrow> nodes v \<le> n \<Longrightarrow> delim rest
     \<Longrightarrow> parse_value n (dump i l v @ rest) = Some (v, rest)"
proof (induction v arbitrary: n l rest)
  case JNull
  from JNull.prems(2) obtain m where "n = Suc m" by (cases n) auto
  then show ?case using parse_value_null [of m rest] by simp
next
  case (JBool b)
  from JBool.prems(2) obtain m where "n = Suc m" by (cases n) auto
  then show ?case
    using parse_value_true [of m rest] parse_value_false [of m rest] by (cases b) simp_all
next
  case (JNum k)
  from JNum.prems(2) obtain m where "n = Suc m" by (cases n) auto
  then show ?case using parse_value_number [OF JNum.prems(3), of m k] by simp
next
  case JNaN
  from JNaN.prems(2) obtain m where "n = Suc m" by (cases n) auto
  then show ?case using parse_value_nan [of m rest] by simp
next
  case (JStr s)
  from JStr.prems(2) obtain m where "n = Suc m" by (cases n) auto
  then show ?case using parse_value_string [of m s rest] by simp
next
  case (JArr xs)
  from JArr.prems(2) obtain m where n: "n = Suc m"
    and le: "sum_list (map (\<lambda>x. Suc (nodes x)) xs) \<le> m"
    by (cases n) auto
  show ?case
  proof (cases "xs = []")
    case True
    then show ?thesis by (simp add: n dq_def)
  next
    case False
    obtain c cs where first: "join (CHR '','' # newline_indent i (Suc l)) (map (dump i (Suc l)) xs) = c # cs"
      and c: "value_start c"
      using join_dump_first [OF False] by blast
    have elems: "parse_elems m []
           (join (CHR '','' # newline_indent i (Suc l)) (map (dump i (Suc l)) xs)
            @ newline_indent i l @ CHR '']'' # rest)
         = Some (JArr ([] @ xs), rest)"
    proof (rule parse_elems_join [OF _ False le])
      show "parse_value n' (dump i l' x @ r) = Some (x, r)"
        if "x \<in> set xs" "nodes x \<le> n'" "delim r" for x n' l' r
        using JArr.IH [of x n' r l'] JArr.prems(1) that by simp
    qed
    have skip: "skip_ws (join (CHR '','' # newline_indent i (Suc l)) (map (dump i (Suc l)) xs)
            @ newline_indent i l @ CHR '']'' # rest) = c # cs @ newline_indent i l @ CHR '']'' # rest"
      using value_start_not(1) [OF c] by (simp add: first)
    show ?thesis
      using False elems value_start_not(2) [OF c]
      by (simp add: n dq_def skip_ws_newline_indent parse_elems_indent skip)
  qed
next
  case (JObj kvs)
  from JObj.prems(2) obtain m where n: "n = Suc m"
    and le: "sum_list (map (\<lambda>kv. Suc (nodes (snd kv))) kvs) \<le> m"
    by (cases n) auto
  show ?case
  proof (cases "kvs = []")
    case True
    then show ?thesis by (simp add: n dq_def)
  next
    case False
    obtain cs where first: "join (CHR '','' # newline_indent i (Suc l)) (map (member i (Suc l)) kvs) = dq # cs"
      using join_member_first [OF False] by blast
    have members: "parse_members m []
           (join (CHR '','' # newline_indent i (Suc l)) (map (member i (Suc l)) kvs)
            @ newline_indent i l @ CHR ''}'' # rest)
         = Some (JObj ([] @ kvs), rest)"
    proof (rule parse_members_join [OF _ False _ le])
      show "distinct (map fst ([] @ kvs))" using JObj.prems(1) by simp
      show "parse_value n' (dump i l' (snd kv) @ r) = Some (snd kv, r)"
        if "kv \<in> set kvs" "nodes (snd kv) \<le> n'" "delim r" for kv n' l' r
        using JObj.IH [of kv "snd kv" n' r l'] JObj.prems(1) that
        by (cases kv) auto
    qed
    have skip: "skip_ws (join (CHR '','' # newline_indent i (Suc l)) (map (member i (Suc l)) kvs)
            @ newline_indent i l @ CHR ''}'' # rest) = dq # cs @ newline_indent i l @ CHR ''}'' # rest"
      by (simp add: first)
    have "dq \<noteq> CHR ''}''" by (simp add: dq_def)
    then show ?thesis
      using False members
      by (simp add: n dump_object skip_ws_newline_indent parse_members_indent skip
          del: dump.simps)
        (simp add: dq_def)
  qed
qed

subsection \<open>Enough fuel\<close>

lemma join_length:
  "sep \<noteq> [] \<Longrightarrow> sum_list (map (\<lambda>s. Suc (length s)) ss) \<le> Suc (length (join sep ss))"
proof (induction sep ss rule: join.induct)
  case (3 sep x y ys)
  then have ih: "sum_list (map (\<lambda>s. Suc (length s)) (y # ys)) \<le> Suc (length (join sep (y # ys)))"
    by simp
  from 3 obtain c cs where "sep = c # cs" by (cases sep) auto
  then show ?case using ih by simp
qed simp_all

lemma newline_indent_length: "0 < length (newline_indent i l)"
  by (simp add: newline_indent_def)

lemma snd_in_snds: "snd kv \<in> Basic_BNFs.snds kv"
  by (cases kv) simp

lemma nodes_le_length: "nodes v \<le> length (dump i l v)"
proof (induction v arbitrary: l)
  case (JNum k)
  then show ?case using show_int_first [of k] by auto
next
  case (JArr xs)
  show ?case
  proof (cases "xs = []")
    case True
    then show ?thesis by simp
  next
    case False
    have "sum_list (map (\<lambda>x. Suc (nodes x)) xs)
        \<le> sum_list (map (\<lambda>x. Suc (length (dump i (Suc l) x))) xs)"
      by (rule sum_list_mono) (simp add: JArr.IH)
    also have "\<dots> = sum_list (map (\<lambda>s. Suc (length s)) (map (dump i (Suc l)) xs))"
      by (simp add: o_def)
    also have "\<dots> \<le> Suc (length (join (CHR '','' # newline_indent i (Suc l))
                                (map (dump i (Suc l)) xs)))"
      by (rule join_length) simp
    finally show ?thesis
      using False newline_indent_length [of i l] newline_indent_length [of i "Suc l"]
      by simp
  qed
next
  case (JObj kvs)
  show ?case
  proof (cases "kvs = []")
    case True
    then show ?thesis by simp
  next
    case False
    have "sum_list (map (\<lambda>kv. Suc (nodes (snd kv))) kvs)
        \<le> sum_list (map (\<lambda>kv. Suc (length (member i (Suc l) kv))) kvs)"
    proof (rule sum_list_mono)
      fix kv assume "kv \<in> set kvs"
      then have "nodes (snd kv) \<le> length (dump i (Suc l) (snd kv))"
        by (rule JObj.IH [OF _ snd_in_snds])
      then show "Suc (nodes (snd kv)) \<le> Suc (length (member i (Suc l) kv))"
        by (simp add: member_def)
    qed
    also have "\<dots> = sum_list (map (\<lambda>s. Suc (length s)) (map (member i (Suc l)) kvs))"
      by (simp add: o_def)
    also have "\<dots> \<le> Suc (length (join (CHR '','' # newline_indent i (Suc l))
                                (map (member i (Suc l)) kvs)))"
      by (rule join_length) simp
    finally show ?thesis
      using False newline_indent_length [of i l] newline_indent_length [of i "Suc l"]
      by (simp add: dump_object del: dump.simps)
  qed
qed (simp_all add: quoted_def)

theorem loads_dumps_json: "wf_json v \<Longrightarrow> loads_json (dumps_json v i) = Some v"
  using parse_dump [of v "Suc (length (dump i 0 v))" "[]" i 0] nodes_le_length [of v i 0]
  by (simp add: loads_json_def dumps_json_def)

subsection \<open>Decoded values have no repeated keys\<close>

lemma dict_set_keys: "fst ` set (dict_set k v acc) = insert k (fst ` set acc)"
proof (induction acc)
  case Nil
  show ?case by simp
next
  case (Cons a acc)
  obtain k' v' where a: "a = (k', v')" by (cases a)
  show ?case
  proof (cases "k' = k")
    case True
    then show ?thesis by (simp add: a)
  next
    case False
    then show ?thesis using Cons.IH by (simp add: a insert_commute)
  qed
qed

lemma dict_set_distinct: "distinct (map fst acc) \<Longrightarrow> distinct (map fst (dict_set k v acc))"
proof (induction acc)
  case Nil
  then show ?case by simp
next
  case (Cons a acc)
  obtain k' v' where a: "a = (k', v')" by (cases a)
  show ?case
  proof (cases "k' = k")
    case True
    then show ?thesis using Cons.prems by (simp add: a)
  next
    case False
    then show ?thesis using Cons by (simp add: a dict_set_keys)
  qed
qed

lemma dict_set_values: "kv \<in> set (dict_set k v acc) \<Longrightarrow> kv = (k, v) \<or> kv \<in> set acc"
  by (induction acc) (auto split: if_splits)

lemma wf_dict_set:
  assumes "wf_json (JObj acc)" and "wf_json v"
  shows "wf_json (JObj (dict_set k v acc))"
proof -
  have "wf_json (snd kv)" if "kv \<in> set (dict_set k v acc)" for kv
    using dict_set_values [OF that] assms by auto
  then show ?thesis using assms(1) by (simp add: dict_set_distinct)
qed

lemma literal_value: "literal lit v s = Some (x, r) \<Longrightarrow> x = v"
  by (simp add: literal_def split: if_splits)

lemma parse_number_value: "parse_number s = Some (x, r) \<Longrightarrow> wf_json x"
  by (auto simp: parse_number_def split: list.splits option.splits if_splits)

lemma parse_value_Suc_cases:
  assumes "parse_value (Suc n) s = Some (v, r)"
  shows "v = JNull \<or> (\<exists>b. v = JBool b) \<or> v = JNaN \<or> (\<exists>x. v = JStr x) \<or> v = JArr []
       \<or> v = JObj []
       \<or> (\<exists>cs. parse_elems n [] cs = Some (v, r))
       \<or> (\<exists>cs. parse_members n [] cs = Some (v, r))
       \<or> (\<exists>cs. parse_number cs = Some (v, r))"
proof (cases "skip_ws s")
  case Nil
  with assms show ?thesis by simp
next
  case (Cons c cs)
  show ?thesis
  proof (cases "c = CHR ''n'' \<or> c = CHR ''t'' \<or> c = CHR ''f'' \<or> c = CHR ''N''")
    case True
    then show ?thesis using assms Cons by (auto simp: literal_def split: if_splits)
  next
    case lit: False
    show ?thesis
    proof (cases "c = dq")
      case True
      then show ?thesis using assms Cons lit by (auto split: option.splits)
    next
      case str: False
      show ?thesis
      proof (cases "c = CHR ''[''")
        case True
        then show ?thesis using assms Cons lit str by (auto split: if_splits)
      next
        case arr: False
        show ?thesis
        proof (cases "c = CHR ''{''")
          case True
          then show ?thesis using assms Cons lit str arr by (auto split: if_splits)
        next
          case False
          then have "parse_number (c # cs) = Some (v, r)"
            using assms Cons lit str arr by simp
          then show ?thesis by blast
        qed
      qed
    qed
  qed
qed

lemma parse_elems_Suc_cases:
  assumes "parse_elems (Suc n) acc s = Some (v, r)"
  shows "\<exists>x r'. parse_value n s = Some (x, r')
           \<and> (parse_elems n (acc @ [x]) (tl (skip_ws r')) = Some (v, r) \<or> v = JArr (acc @ [x]))"
proof (cases "parse_value n s")
  case None
  with assms show ?thesis by simp
next
  case (Some p)
  obtain x r' where p: "p = (x, r')" by (cases p)
  show ?thesis
    using assms Some by (simp add: p split: if_splits)
qed

lemma parse_members_Suc_cases:
  assumes "parse_members (Suc n) acc s = Some (v, r)"
  shows "\<exists>k x s' r'. parse_value n s' = Some (x, r')
           \<and> (parse_members n (dict_set k x acc) (tl (skip_ws r')) = Some (v, r)
                \<or> v = JObj (dict_set k x acc))"
proof (cases "starts dq (skip_ws s)")
  case False
  with assms show ?thesis by simp
next
  case dqs: True
  show ?thesis
  proof (cases "parse_chars (tl (skip_ws s))")
    case None
    with assms dqs show ?thesis by simp
  next
    case (Some p)
    obtain k r1 where p: "p = (k, r1)" by (cases p)
    show ?thesis
    proof (cases "starts CHR '':'' (skip_ws r1)")
      case False
      with assms dqs Some p show ?thesis by simp
    next
      case col: True
      show ?thesis
      proof (cases "parse_value n (tl (skip_ws r1))")
        case None
        with assms dqs Some p col show ?thesis by simp
      next
        case val: (Some q)
        obtain x r2 where q: "q = (x, r2)" by (cases q)
        have "parse_members n (dict_set k x acc) (tl (skip_ws r2)) = Some (v, r)
              \<or> v = JObj (dict_set k x acc)"
          using assms dqs Some p col val q by (simp split: if_splits)
        with val q show ?thesis by blast
      qed
    qed
  qed
qed

lemma parse_wf:
  "(\<forall>s v r. parse_value n s = Some (v, r) \<longrightarrow> wf_json v)
   \<and> (\<forall>acc s v r. wf_json (JArr acc) \<longrightarrow> parse_elems n acc s = Some (v, r) \<longrightarrow> wf_json v)
   \<and> (\<forall>acc s v r. wf_json (JObj acc) \<longrightarrow> parse_members n acc s = Some (v, r) \<longrightarrow> wf_json v)"
proof (induction n)
  case 0
  show ?case by simp
next
  case (Suc n)
  from Suc have ih_val: "parse_value n s = Some (v, r) \<Longrightarrow> wf_json v" for s v r
    by blast
  from Suc have ih_elems:
    "wf_json (JArr acc) \<Longrightarrow> parse_elems n acc s = Some (v, r) \<Longrightarrow> wf_json v" for acc s v r
    by blast
  from Suc have ih_members:
    "wf_json (JObj acc) \<Longrightarrow> parse_members n acc s = Some (v, r) \<Longrightarrow> wf_json v" for acc s v r
    by blast
  have val: "wf_json v" if "parse_value (Suc n) s = Some (v, r)" for s v r
  proof -
    have empty: "wf_json (JArr [])" "wf_json (JObj [])" by simp_all
    from parse_value_Suc_cases [OF that]
    consider "v = JNull \<or> (\<exists>b. v = JBool b) \<or> v = JNaN \<or> (\<exists>x. v = JStr x) \<or> v = JArr []
        \<or> v = JObj []"
      | cs where "parse_elems n [] cs = Some (v, r)"
      | cs where "parse_members n [] cs = Some (v, r)"
      | cs where "parse_number cs = Some (v, r)"
      by blast
    then show ?thesis
    proof cases
      case 1
      then show ?thesis by auto
    next
      case 2
      with empty(1) show ?thesis by (rule ih_elems)
    next
      case 3
      with empty(2) show ?thesis by (rule ih_members)
    next
      case 4
      then show ?thesis by (rule parse_number_value)
    qed
  qed
  have elems: "wf_json v"
    if w: "wf_json (JArr acc)" and p: "parse_elems (Suc n) acc s = Some (v, r)" for acc s v r
  proof -
    from parse_elems_Suc_cases [OF p] obtain x r' where x: "parse_value n s = Some (x, r')"
      and alt: "parse_elems n (acc @ [x]) (tl (skip_ws r')) = Some (v, r) \<or> v = JArr (acc @ [x])"
      by blast
    have "wf_json x" using x by (rule ih_val)
    with w have wx: "wf_json (JArr (acc @ [x]))" by simp
    from alt show ?thesis
    proof
      assume "parse_elems n (acc @ [x]) (tl (skip_ws r')) = Some (v, r)"
      with wx show ?thesis by (rule ih_elems)
    next
      assume "v = JArr (acc @ [x])"
      with wx show ?thesis by simp
    qed
  qed
  have members: "wf_json v"
    if w: "wf_json (JObj acc)" and p: "parse_members (Suc n) acc s = Some (v, r)" for acc s v r
  proof -
    from parse_members_Suc_cases [OF p] obtain k x s' r' where
      x: "parse_value n s' = Some (x, r')"
      and alt: "parse_members n (dict_set k x acc) (tl (skip_ws r')) = Some (v, r)
                \<or> v = JObj (dict_set k x acc)"
      by blast
    have "wf_json x" using x by (rule ih_val)
    with w have wx: "wf_json (JObj (dict_set k x acc))" by (rule wf_dict_set)
    from alt show ?thesis
    proof
      assume "parse_members n (dict_set k x acc) (tl (skip_ws r')) = Some (v, r)"
      with wx show ?thesis by (rule ih_members)
    next
      assume "v = JObj (dict_set k x acc)"
      with wx show ?thesis by simp
    qed
  qed
  from val elems members show ?case by blast
qed

lemma loads_json_wf:
  assumes "loads_json s = Some v"
  shows "wf_json v"
proof (cases "parse_value (Suc (length s)) s")
  case None
  with assms show ?thesis by (simp add: loads_json_def del: parse_value.simps)
next
  case (Some p)
  obtain x r where p: "p = (x, r)" by (cases p)
  have "x = v"
    using assms Some by (simp add: loads_json_def p del: parse_value.simps split: if_splits)
  with Some p have "parse_value (Suc (length s)) s = Some (v, r)" by simp
  with parse_wf [of "Suc (length s)"] show ?thesis by blast
qed

theorem loads_dumps_loads:
  "loads_json s = Some v \<Longrightarrow> loads_json (dumps_json v i) = Some v"
  by (rule loads_dumps_json) (rule loads_json_wf)

text \<open>
  So on the mocked library the file decodes to the very value the body decoded to, for
  every response the codec can decode. Whether that value is equal to itself under
  \<open>py_eq\<close> is another matter: it is not when it is \<^verbatim>\<open>NaN\<close>.
\<close>

corollary mock_file_parses_to_body:
  assumes "loads_json (text_body r) = Some B"
  shows "files (snd (main (mock (Inr r)) w)) ''temp.json'' = Some (dumps_json B 4)
       \<and> (case files (snd (main (mock (Inr r)) w)) ''temp.json'' of
             None \<Rightarrow> None | Some c \<Rightarrow> loads_json c) = Some B"
  using main_success [of "mock (Inr r)" r B w] loads_dumps_loads [OF assms, of 4] assms
  by (simp add: mock_get mock_loads mock_dumps)

subsection \<open>Values equal to themselves\<close>

lemma py_eq_list_refl: "(\<And>x. x \<in> set xs \<Longrightarrow> py_eq x x) \<Longrightarrow> py_eq_list xs xs"
  by (induction xs) simp_all

lemma py_eq_items_refl:
  assumes "distinct (map fst kvs')"
    and "set kvs \<subseteq> set kvs'"
    and "\<And>kv. kv \<in> set kvs \<Longrightarrow> py_eq (snd kv) (snd kv)"
  shows "py_eq_items kvs kvs'"
  using assms(2,3)
proof (induction kvs)
  case Nil
  show ?case by simp
next
  case (Cons kv kvs)
  obtain k v where kv: "kv = (k, v)" by (cases kv)
  have "(k, v) \<in> set kvs'" using Cons.prems(1) kv by simp
  with assms(1) have "map_of kvs' k = Some v" by (rule map_of_is_SomeI)
  moreover have "py_eq v v" using Cons.prems(2) [of kv] kv by simp
  moreover have "py_eq_items kvs kvs'" using Cons by simp
  ultimately show ?case by (simp add: kv)
qed

lemma py_eq_refl: "wf_json v \<Longrightarrow> nan_free v \<Longrightarrow> py_eq v v"
proof (induction v)
  case (JArr xs)
  then show ?case by (simp add: py_eq_list_refl)
next
  case (JObj kvs)
  have "py_eq (snd kv) (snd kv)" if "kv \<in> set kvs" for kv
    using JObj.IH [OF that snd_in_snds] JObj.prems that by simp
  with JObj.prems show ?case by (simp add: py_eq_items_refl)
qed simp_all

text \<open>
  On the mocked library, then, the check of the specification succeeds for every
  response whose body the codec decodes to a value without \<^verbatim>\<open>NaN\<close>.
\<close>

corollary mock_file_equal_to_body:
  assumes "loads_json (text_body r) = Some B"
    and "nan_free B"
  shows "parses_back (mock (Inr r)) py_eq (files (snd (main (mock (Inr r)) w)) ''temp.json'') B"
  using main_success [of "mock (Inr r)" r B w] loads_dumps_loads [OF assms(1), of 4]
    py_eq_refl [OF loads_json_wf [OF assms(1)] assms(2)] assms(1)
  by (simp add: mock_get mock_loads mock_dumps parses_back_def)

end
